theory Spec2Isabelle
  imports Complex_Main
begin

section \<open>Data model\<close>

text \<open>
  The notebook \<^verbatim>\<open>Section 4/RidgeRegression.ipynb\<close> ("Training Machine Learning
  Models") works on the Titanic table. A row of the table is a record of the columns
  the code reads; the record is extensible, so the columns the code never touches
  (name, fare) live in the extension. \<^verbatim>\<open>Survived\<close>, \<^verbatim>\<open>Pclass\<close> and the two
  counts are integer columns, \<^verbatim>\<open>Sex\<close> is a string column and \<^verbatim>\<open>Age\<close> is a
  floating-point column.
\<close>

text \<open>
  A floating-point cell is either a finite value, which is a rational number, or the
  missing-value marker NaN. Only the comparison \<^verbatim>\<open><\<close> is ever applied to an age,
  and on finite values it agrees with the order of the rationals; any comparison
  with NaN is false.
\<close>

datatype float64 = NaN | Finite rat

fun float_lt :: "float64 \<Rightarrow> float64 \<Rightarrow> bool" where
  "float_lt (Finite a) (Finite b) = (a < b)"
| "float_lt _ _ = False"

record passenger =
  Survived :: int
  Pclass :: int
  Sex :: string
  Siblings_Spouses_Aboard :: int
  Parents_Children_Aboard :: int
  Age :: float64

text \<open>
  pandas, scikit-learn and NumPy report every failure that can occur here with one
  of two Python exceptions.
\<close>

datatype error = ValueError | IndexError

section \<open>The most common label\<close>

text \<open>
  Modelled from the spec: \<^verbatim>\<open>Series.value_counts\<close> and \<^verbatim>\<open>Series.argmax\<close> are
  pandas methods and no part of the sources at hand. The expression
  \<^verbatim>\<open>s.value_counts().argmax()\<close> is "the most frequent label" of section 4.1, with
  the tie-break that section fixes: the lowest label value wins.
  \<open>value_counts\<close> lists each distinct label with its number of occurrences, the
  counts in descending order and labels with equal counts in ascending order;
  \<open>argmax\<close> returns the label of the first entry whose count is maximal, and raises
  \<^verbatim>\<open>ValueError\<close> on an empty series.
\<close>

definition value_counts :: "int list \<Rightarrow> (int \<times> nat) list" where
  "value_counts s =
     sort_key (\<lambda>p. - int (snd p)) (map (\<lambda>l. (l, count_list s l)) (sort (remdups s)))"

fun argmax_from :: "int \<times> nat \<Rightarrow> (int \<times> nat) list \<Rightarrow> int \<times> nat" where
  "argmax_from best [] = best"
| "argmax_from best (p # ps) = argmax_from (if snd best < snd p then p else best) ps"

definition argmax :: "(int \<times> nat) list \<Rightarrow> error + int" where
  "argmax vc = (case vc of [] \<Rightarrow> Inl ValueError | p # ps \<Rightarrow> Inr (fst (argmax_from p ps)))"

section \<open>The table-lookup predictors\<close>

text \<open>
  \<^verbatim>\<open>
  def table_lookup_predictor(x, table):
      default = table.Survived.value_counts().argmax()
      similar_tab = table.loc[(table["Pclass"] == x["Pclass"]) &
                              (table["Sex"] == x["Sex"]) &
                              (table["Siblings/Spouses Aboard"] == x["Siblings/Spouses Aboard"]) &
                              (table["Parents/Children Aboard"] == x["Parents/Children Aboard"]),
                              "Survived"]
      if len(similar_tab) == 0:
          return default
      else:
          return similar_tab.value_counts().argmax()
  \<close>
  The boolean mask is a predicate on the rows of the table, and \<^verbatim>\<open>table.loc[mask,
  "Survived"]\<close> is the list of labels of the rows that satisfy it. The default is
  computed first, so an empty table raises before the mask is looked at.
\<close>

definition similar :: "'a passenger_scheme \<Rightarrow> 'a passenger_scheme \<Rightarrow> bool" where
  "similar x row \<longleftrightarrow>
     Pclass row = Pclass x \<and>
     Sex row = Sex x \<and>
     Siblings_Spouses_Aboard row = Siblings_Spouses_Aboard x \<and>
     Parents_Children_Aboard row = Parents_Children_Aboard x"

definition table_lookup_predictor ::
  "'a passenger_scheme \<Rightarrow> 'a passenger_scheme list \<Rightarrow> error + int" where
  "table_lookup_predictor x table =
     (case argmax (value_counts (map Survived table)) of
        Inl e \<Rightarrow> Inl e
      | Inr dflt \<Rightarrow>
          let similar_tab = map Survived (filter (similar x) table)
          in if length similar_tab = 0 then Inr dflt
             else argmax (value_counts similar_tab))"

text \<open>
  \<^verbatim>\<open>table_lookup_predictor_2(x, table, age)\<close> is the same function with one more
  conjunct in the mask: \<^verbatim>\<open>((table["Age"] < age) == (x["Age"] < age))\<close>.
\<close>

definition similar_2 :: "float64 \<Rightarrow> 'a passenger_scheme \<Rightarrow> 'a passenger_scheme \<Rightarrow> bool" where
  "similar_2 age x row \<longleftrightarrow>
     Pclass row = Pclass x \<and>
     Sex row = Sex x \<and>
     Siblings_Spouses_Aboard row = Siblings_Spouses_Aboard x \<and>
     Parents_Children_Aboard row = Parents_Children_Aboard x \<and>
     (float_lt (Age row) age = float_lt (Age x) age)"

definition table_lookup_predictor_2 ::
  "'a passenger_scheme \<Rightarrow> 'a passenger_scheme list \<Rightarrow> float64 \<Rightarrow> error + int" where
  "table_lookup_predictor_2 x table age =
     (case argmax (value_counts (map Survived table)) of
        Inl e \<Rightarrow> Inl e
      | Inr dflt \<Rightarrow>
          let similar_tab = map Survived (filter (similar_2 age x) table)
          in if length similar_tab = 0 then Inr dflt
             else argmax (value_counts similar_tab))"

section \<open>Folds\<close>

text \<open>
  Modelled from the spec: \<^verbatim>\<open>KFold(n_splits=k)\<close> and its method \<^verbatim>\<open>split\<close> belong to
  scikit-learn and are no part of the sources at hand; the notebook builds the
  splitter without shuffling. Section 4.2 describes it as \<^verbatim>\<open>make_folds(n_records, k)\<close>:
  the indices \<open>0..n_records-1\<close> are cut, in order, into \<open>k\<close> contiguous blocks whose
  sizes differ by at most one, and the call fails when \<open>k < 2\<close> or \<open>k > n_records\<close>.
  Every block has \<open>n_records div k\<close> indices and the first \<open>n_records mod k\<close> blocks
  have one more. The failure is Python's \<^verbatim>\<open>ValueError\<close>, which the spec calls
  \<^verbatim>\<open>InvalidArgument\<close> when it speaks of the partitioner and \<^verbatim>\<open>InsufficientData\<close>
  when it speaks of the search that calls it.
\<close>

definition fold_sizes :: "nat \<Rightarrow> nat \<Rightarrow> nat list" where
  "fold_sizes n_records k =
     map (\<lambda>i. n_records div k + (if i < n_records mod k then 1 else 0)) [0..<k]"

fun blocks :: "nat \<Rightarrow> nat list \<Rightarrow> nat list list" where
  "blocks current [] = []"
| "blocks current (fold_size # rest) =
     [current..<current + fold_size] # blocks (current + fold_size) rest"

definition make_folds :: "nat \<Rightarrow> int \<Rightarrow> error + nat list list" where
  "make_folds n_records k =
     (if k < 2 \<or> k > int n_records then Inl ValueError
      else Inr (blocks 0 (fold_sizes n_records (nat k))))"

text \<open>
  \<^verbatim>\<open>kf.split(titanic_train)\<close> yields, for every fold, the pair of the training
  indices (all indices outside the fold, in order) and the test indices (the fold).
  The table only reaches the splitter here, so this is where a fold count larger
  than the table is found out.
\<close>

definition kf_split :: "int \<Rightarrow> 'a list \<Rightarrow> error + (nat list \<times> nat list) list" where
  "kf_split k X =
     (case make_folds (length X) k of
        Inl e \<Rightarrow> Inl e
      | Inr folds \<Rightarrow>
          Inr (map (\<lambda>test. (filter (\<lambda>i. i \<notin> set test) [0..<length X], test)) folds))"

text \<open>
  Modelled from the spec: \<^verbatim>\<open>KFold(n_splits=k)\<close> is scikit-learn's constructor, which
  the notebook calls in a cell of its own before the loop
  (\<^verbatim>\<open>kf = KFold(n_splits=10)\<close>). Of the two checks of section 4.2, the one that
  needs no table, \<open>k < 2\<close>, is made there; a splitter that has been built is
  its number of folds.
\<close>

definition KFold :: "int \<Rightarrow> error + int" where
  "KFold n_splits = (if n_splits < 2 then Inl ValueError else Inr n_splits)"

section \<open>The cross-validation loop\<close>

text \<open>
  \<^verbatim>\<open>df.iloc[idx]\<close> selects rows by position and raises \<^verbatim>\<open>IndexError\<close> for a
  position outside the frame. \<^verbatim>\<open>df.apply(f, 1, ...)\<close> calls \<open>f\<close> on every row in
  order; the first exception ends it.
\<close>

definition iloc :: "'a list \<Rightarrow> nat list \<Rightarrow> error + 'a list" where
  "iloc df idx =
     (if list_all (\<lambda>i. i < length df) idx then Inr (map (nth df) idx) else Inl IndexError)"

fun apply_rows :: "('a \<Rightarrow> error + 'b) \<Rightarrow> 'a list \<Rightarrow> error + 'b list" where
  "apply_rows f [] = Inr []"
| "apply_rows f (x # xs) =
     (case f x of
        Inl e \<Rightarrow> Inl e
      | Inr y \<Rightarrow> (case apply_rows f xs of Inl e \<Rightarrow> Inl e | Inr ys \<Rightarrow> Inr (y # ys)))"

text \<open>
  Modelled from the spec: \<^verbatim>\<open>accuracy_score\<close> belongs to scikit-learn. Section 4.3
  gives the score as the count of correct predictions divided by the count of
  held-out records. The quotient is the exact rational number; it is formed only
  for two sequences of one length that is not zero, and the model fails otherwise.
\<close>

definition accuracy_score :: "int list \<Rightarrow> int list \<Rightarrow> error + rat" where
  "accuracy_score y_true y_pred =
     (if length y_true \<noteq> length y_pred \<or> y_true = [] then Inl ValueError
      else Inr (of_nat (length (filter (\<lambda>(t, p). t = p) (zip y_true y_pred)))
                / of_nat (length y_true)))"

text \<open>
  \<^verbatim>\<open>
  ages = [10, 20, 30, 40, 50, 60]
  performance = dict()

  for age in ages:
      cv_perf = list()
      for train, test in kf.split(titanic_train):
          predicted = titanic_train.iloc[test,:].apply(table_lookup_predictor_2, 1,
                                                       table=titanic_train.iloc[train,:], age=age)
          actual = titanic_train.loc[:,"Survived"].iloc[test]
          cv_perf.append(accuracy_score(y_true=actual, y_pred=predicted))
      performance[age] = cv_perf
  \<close>
  The cell is a function of the table, the candidate cutoffs and the number of
  folds. A cutoff is a finite number. \<open>fold_score\<close> is the body of the inner loop,
  \<open>cv_loop\<close> the inner loop with the list \<open>cv_perf\<close> as its state, and
  \<open>performance_loop\<close> the outer loop with the dictionary \<open>performance\<close> as its state.
  \<open>evaluate\<close> builds the splitter \<open>kf\<close>, as the cell before the loop does, and runs
  the loop on the empty dictionary.
\<close>

definition fold_score ::
  "'a passenger_scheme list \<Rightarrow> rat \<Rightarrow> nat list \<times> nat list \<Rightarrow> error + rat" where
  "fold_score titanic_train age tt =
     (case tt of (train, test) \<Rightarrow>
        (case iloc titanic_train test of
           Inl e \<Rightarrow> Inl e
         | Inr held \<Rightarrow>
        (case iloc titanic_train train of
           Inl e \<Rightarrow> Inl e
         | Inr tab \<Rightarrow>
        (case apply_rows (\<lambda>x. table_lookup_predictor_2 x tab (Finite age)) held of
           Inl e \<Rightarrow> Inl e
         | Inr predicted \<Rightarrow>
        (case iloc (map Survived titanic_train) test of
           Inl e \<Rightarrow> Inl e
         | Inr actual \<Rightarrow> accuracy_score actual predicted)))))"

fun cv_loop ::
  "'a passenger_scheme list \<Rightarrow> rat \<Rightarrow> (nat list \<times> nat list) list \<Rightarrow> rat list
     \<Rightarrow> error + rat list" where
  "cv_loop titanic_train age [] cv_perf = Inr cv_perf"
| "cv_loop titanic_train age (tt # rest) cv_perf =
     (case fold_score titanic_train age tt of
        Inl e \<Rightarrow> Inl e
      | Inr score \<Rightarrow> cv_loop titanic_train age rest (cv_perf @ [score]))"

fun performance_loop ::
  "'a passenger_scheme list \<Rightarrow> int \<Rightarrow> rat list \<Rightarrow> (rat \<rightharpoonup> rat list)
     \<Rightarrow> error + (rat \<rightharpoonup> rat list)" where
  "performance_loop titanic_train kf [] performance = Inr performance"
| "performance_loop titanic_train kf (age # ages) performance =
     (case kf_split kf titanic_train of
        Inl e \<Rightarrow> Inl e
      | Inr splits \<Rightarrow>
        (case cv_loop titanic_train age splits [] of
           Inl e \<Rightarrow> Inl e
         | Inr cv_perf \<Rightarrow> performance_loop titanic_train kf ages (performance(age \<mapsto> cv_perf))))"

definition evaluate ::
  "'a passenger_scheme list \<Rightarrow> rat list \<Rightarrow> int \<Rightarrow> error + (rat \<rightharpoonup> rat list)" where
  "evaluate dataset candidates k =
     (case KFold k of
        Inl e \<Rightarrow> Inl e
      | Inr kf \<Rightarrow> performance_loop dataset kf candidates Map.empty)"

section \<open>The search in any order of the pairs\<close>

text \<open>
  The spec lets the (candidate, fold) pairs be processed in any order, each score
  being written to the slot of its own pair (section 5); its performance record is a
  mapping from the pair of a candidate and a fold index to a score (section 3).
  Section 4.3 makes the folds first and then visits the pairs with the folds outside
  and the candidates inside. \<open>process_pairs\<close> visits a given list of pairs in its
  order; the score of a pair is the one the code computes, and a pair whose fold
  index is no fold fails. \<open>collect\<close> reads the finished record as the mapping from
  each candidate to its sequence of \<open>k\<close> scores, one per fold in the order of the
  folds; a candidate with a slot still empty has no sequence.
\<close>

fun process_pairs ::
  "'a passenger_scheme list \<Rightarrow> (nat list \<times> nat list) list \<Rightarrow> (rat \<times> nat) list
     \<Rightarrow> (rat \<times> nat \<rightharpoonup> rat) \<Rightarrow> error + (rat \<times> nat \<rightharpoonup> rat)" where
  "process_pairs dataset splits [] slots = Inr slots"
| "process_pairs dataset splits ((h, f) # rest) slots =
     (if f < length splits then
        (case fold_score dataset h (splits ! f) of
           Inl e \<Rightarrow> Inl e
         | Inr s \<Rightarrow> process_pairs dataset splits rest (slots((h, f) \<mapsto> s)))
      else Inl IndexError)"

definition collect :: "rat list \<Rightarrow> nat \<Rightarrow> (rat \<times> nat \<rightharpoonup> rat) \<Rightarrow> (rat \<rightharpoonup> rat list)" where
  "collect candidates k slots =
     (\<lambda>h. if h \<in> set candidates then those (map (\<lambda>f. slots (h, f)) [0..<k]) else None)"

definition evaluate_in_order ::
  "'a passenger_scheme list \<Rightarrow> rat list \<Rightarrow> int \<Rightarrow> (rat \<times> nat) list
     \<Rightarrow> error + (rat \<rightharpoonup> rat list)" where
  "evaluate_in_order dataset candidates k pairs =
     (case KFold k of
        Inl e \<Rightarrow> Inl e
      | Inr kf \<Rightarrow>
        (case kf_split kf dataset of
           Inl e \<Rightarrow> Inl e
         | Inr splits \<Rightarrow>
           (case process_pairs dataset splits pairs Map.empty of
              Inl e \<Rightarrow> Inl e
            | Inr slots \<Rightarrow> Inr (collect candidates (nat k) slots))))"

text \<open>
  The order of section 4.3: for each fold index \<open>f\<close> in \<open>0..k-1\<close>, for each
  candidate \<open>h\<close> of the list.
\<close>

definition fold_outer_order :: "rat list \<Rightarrow> int \<Rightarrow> (rat \<times> nat) list" where
  "fold_outer_order candidates k =
     concat (map (\<lambda>f. map (\<lambda>h. (h, f)) candidates) [0..<nat k])"

definition evaluate_fold_outer ::
  "'a passenger_scheme list \<Rightarrow> rat list \<Rightarrow> int \<Rightarrow> error + (rat \<rightharpoonup> rat list)" where
  "evaluate_fold_outer dataset candidates k =
     evaluate_in_order dataset candidates k (fold_outer_order candidates k)"

section \<open>Notions used to state the properties\<close>

text \<open>
  \<open>most_frequent s l\<close>: the label \<open>l\<close> occurs in \<open>s\<close> and no label occurs more
  often.
\<close>

definition most_frequent :: "int list \<Rightarrow> int \<Rightarrow> bool" where
  "most_frequent s l \<longleftrightarrow> l \<in> set s \<and> (\<forall>l' \<in> set s. count_list s l' \<le> count_list s l)"

text \<open>
  The reference table of a fold is made of all rows outside the fold, in order.
  \<open>correct_count\<close> counts the rows of the fold whose label the predictor gets right
  from that table.
\<close>

definition training_of :: "'a list \<Rightarrow> nat list \<Rightarrow> 'a list" where
  "training_of dataset test = map (nth dataset) (filter (\<lambda>i. i \<notin> set test) [0..<length dataset])"

definition correct_count :: "'a passenger_scheme list \<Rightarrow> rat \<Rightarrow> nat list \<Rightarrow> nat" where
  "correct_count dataset h test =
     length (filter (\<lambda>i. table_lookup_predictor_2 (dataset ! i) (training_of dataset test) (Finite h)
                             = Inr (Survived (dataset ! i))) test)"

text \<open>
  The score of a candidate on a fold, as section 4.3 words it: the count of correct
  predictions divided by the count of held-out records.
\<close>

definition score :: "'a passenger_scheme list \<Rightarrow> rat \<Rightarrow> nat list \<times> nat list \<Rightarrow> rat" where
  "score dataset h tt = of_nat (correct_count dataset h (snd tt)) / of_nat (length (snd tt))"

text \<open>
  The scores a run has recorded for a candidate, and a table of four passengers of
  one class and sex, two of them young survivors, for the examples.
\<close>

definition example_dataset :: "passenger list" where
  "example_dataset =
     [\<lparr>Survived = 1, Pclass = 3, Sex = ''male'', Siblings_Spouses_Aboard = 0,
        Parents_Children_Aboard = 0, Age = Finite 22\<rparr>,
      \<lparr>Survived = 0, Pclass = 3, Sex = ''male'', Siblings_Spouses_Aboard = 0,
        Parents_Children_Aboard = 0, Age = Finite 40\<rparr>,
      \<lparr>Survived = 1, Pclass = 3, Sex = ''male'', Siblings_Spouses_Aboard = 0,
        Parents_Children_Aboard = 0, Age = Finite 25\<rparr>,
      \<lparr>Survived = 0, Pclass = 3, Sex = ''male'', Siblings_Spouses_Aboard = 0,
        Parents_Children_Aboard = 0, Age = Finite 50\<rparr>]"

definition scores_of :: "error + (rat \<rightharpoonup> rat list) \<Rightarrow> rat \<Rightarrow> rat list option" where
  "scores_of result h = (case result of Inl e \<Rightarrow> None | Inr performance \<Rightarrow> performance h)"

section \<open>Properties of the most common label\<close>

text \<open>
  The loop of \<open>argmax_from\<close> stops on the first entry of maximal count: every entry
  before it has a strictly smaller count, every entry after it none larger.
\<close>

lemma argmax_from_split:
  "\<exists>us vs. best # ps = us @ argmax_from best ps # vs \<and>
     (\<forall>u \<in> set us. snd u < snd (argmax_from best ps)) \<and>
     (\<forall>v \<in> set vs. snd v \<le> snd (argmax_from best ps))"
proof (induction ps arbitrary: best)
  case Nil
  have "[best] = [] @ best # []" by simp
  then show ?case by (intro exI [of _ "[]"]) simp
next
  case (Cons p ps)
  define b where "b = (if snd best < snd p then p else best)"
  define m where "m = argmax_from b ps"
  from Cons.IH [of b] obtain us vs where
    eq: "b # ps = us @ m # vs" and
    lt: "\<forall>u \<in> set us. snd u < snd m" and
    le: "\<forall>v \<in> set vs. snd v \<le> snd m"
    unfolding m_def by blast
  have res: "argmax_from best (p # ps) = m" by (simp add: m_def b_def)
  have bm: "snd b \<le> snd m"
  proof (cases us)
    case Nil
    with eq show ?thesis by simp
  next
    case (Cons u us')
    with eq lt show ?thesis by auto
  qed
  have "\<exists>us vs. best # p # ps = us @ m # vs \<and>
     (\<forall>u \<in> set us. snd u < snd m) \<and> (\<forall>v \<in> set vs. snd v \<le> snd m)"
  proof (cases "snd best < snd p")
    case True
    then have b: "b = p" by (simp add: b_def)
    have "best # p # ps = (best # us) @ m # vs" using eq b by simp
    moreover have "\<forall>u \<in> set (best # us). snd u < snd m"
      using lt True bm b by auto
    ultimately show ?thesis using le by blast
  next
    case False
    then have b: "b = best" by (simp add: b_def)
    show ?thesis
    proof (cases us)
      case Nil
      then have bm': "best = m" and "ps = vs" using eq b by simp_all
      then have "best # p # ps = [] @ m # (p # vs)" by simp
      moreover have "\<forall>v \<in> set (p # vs). snd v \<le> snd m"
        using le False bm' by auto
      moreover have "\<forall>u \<in> set ([] :: (int \<times> nat) list). snd u < snd m" by simp
      ultimately show ?thesis by blast
    next
      case (Cons u us')
      then have u: "u = best" and ps: "ps = us' @ m # vs" using eq b by simp_all
      have "best # p # ps = (best # p # us') @ m # vs" using ps by simp
      moreover have "\<forall>u \<in> set (best # p # us'). snd u < snd m"
        using lt Cons u False by auto
      ultimately show ?thesis using le by blast
    qed
  qed
  then show ?case unfolding res .
qed

lemma most_common_lowest:
  assumes "s \<noteq> []"
  shows "\<exists>l. argmax (value_counts s) = Inr l \<and> l \<in> set s \<and>
           (\<forall>l'. count_list s l' \<le> count_list s l) \<and>
           (\<forall>l'. count_list s l' = count_list s l \<longrightarrow> l \<le> l')"
proof -
  let ?g = "\<lambda>l. (l, count_list s l)"
  let ?f = "\<lambda>p::int \<times> nat. - int (snd p)"
  let ?zs = "map ?g (sort (remdups s))"
  have vc: "value_counts s = sort_key ?f ?zs" by (simp add: value_counts_def)
  have setvc: "set (value_counts s) = ?g ` set s" unfolding vc by simp
  with assms have "value_counts s \<noteq> []" by auto
  then obtain b ps where bps: "value_counts s = b # ps" by (cases "value_counts s") auto
  define m where "m = argmax_from b ps"
  have res: "argmax (value_counts s) = Inr (fst m)" by (simp add: argmax_def bps m_def)
  from argmax_from_split [of b ps] obtain us vs where
    eq: "value_counts s = us @ m # vs" and
    lt: "\<forall>u \<in> set us. snd u < snd m" and
    le: "\<forall>v \<in> set vs. snd v \<le> snd m"
    unfolding m_def bps by blast
  have "m \<in> set (value_counts s)" using eq by simp
  then have min: "fst m \<in> set s" and mc: "snd m = count_list s (fst m)"
    using setvc by auto
  have max: "count_list s l' \<le> count_list s (fst m)" for l'
  proof (cases "l' \<in> set s")
    case True
    then have "?g l' \<in> set (us @ m # vs)" using setvc eq by auto
    then show ?thesis using lt le mc by fastforce
  next
    case False
    then show ?thesis by (simp add: count_list_0_iff)
  qed
  have low: "fst m \<le> l'" if c: "count_list s l' = count_list s (fst m)" for l'
  proof -
    have "count_list s (fst m) \<noteq> 0" using min by (simp add: count_list_0_iff)
    then have l': "l' \<in> set s" using c by (metis count_list_0_iff)
    have "filter (\<lambda>p. ?f p = ?f m) (value_counts s) = filter (\<lambda>p. ?f p = ?f m) ?zs"
      unfolding vc by (rule sort_key_stable)
    moreover have "filter (\<lambda>p. ?f p = ?f m) (us @ m # vs) = m # filter (\<lambda>p. ?f p = ?f m) vs"
      using lt by (auto simp: filter_empty_conv)
    moreover have "filter (\<lambda>p. ?f p = ?f m) ?zs
        = map ?g (filter (\<lambda>l. count_list s l = snd m) (sort (remdups s)))"
      by (simp add: filter_map comp_def)
    ultimately have h: "map ?g (filter (\<lambda>l. count_list s l = snd m) (sort (remdups s)))
        = m # filter (\<lambda>p. ?f p = ?f m) vs"
      using eq by simp
    let ?ls = "filter (\<lambda>l. count_list s l = snd m) (sort (remdups s))"
    from h obtain ls' where ls: "?ls = fst m # ls'" by (cases ?ls) auto
    have "sorted ?ls" by (simp add: sorted_filter [where f = "\<lambda>x. x", simplified])
    moreover have "l' \<in> set ?ls" using l' c mc by simp
    ultimately show ?thesis unfolding ls by auto
  qed
  show ?thesis using res min max low by blast
qed

lemma most_common_most_frequent:
  assumes "s \<noteq> []"
  shows "\<exists>l. argmax (value_counts s) = Inr l \<and> most_frequent s l \<and>
           (\<forall>l'. most_frequent s l' \<longrightarrow> l \<le> l')"
proof -
  from most_common_lowest [OF assms] obtain l where
    r: "argmax (value_counts s) = Inr l" and m: "l \<in> set s" and
    mx: "\<forall>l'. count_list s l' \<le> count_list s l" and
    lo: "\<forall>l'. count_list s l' = count_list s l \<longrightarrow> l \<le> l'"
    by blast
  have "most_frequent s l" using m mx by (simp add: most_frequent_def)
  moreover have "l \<le> l'" if "most_frequent s l'" for l'
  proof -
    from that m have "count_list s l \<le> count_list s l'" by (simp add: most_frequent_def)
    with mx have "count_list s l' = count_list s l" by (simp add: le_antisym)
    with lo show ?thesis by blast
  qed
  ultimately show ?thesis using r by blast
qed

lemma argmax_value_counts_Nil: "argmax (value_counts []) = Inl ValueError"
  by (simp add: argmax_def value_counts_def)

text \<open>
  On a non-empty table both predictors return the most common label of the labels
  that decide: those of the similar rows, or of the whole table when no row is
  similar.
\<close>

lemma table_lookup_predictor_2_deciding:
  assumes "table \<noteq> []"
  shows "table_lookup_predictor_2 x table age =
    argmax (value_counts (if filter (similar_2 age x) table = [] then map Survived table
                          else map Survived (filter (similar_2 age x) table)))"
proof -
  from assms have "map Survived table \<noteq> []" by simp
  then obtain l where "argmax (value_counts (map Survived table)) = Inr l"
    using most_common_most_frequent by blast
  then show ?thesis by (simp add: table_lookup_predictor_2_def)
qed

lemma table_lookup_predictor_deciding:
  assumes "table \<noteq> []"
  shows "table_lookup_predictor x table =
    argmax (value_counts (if filter (similar x) table = [] then map Survived table
                          else map Survived (filter (similar x) table)))"
proof -
  from assms have "map Survived table \<noteq> []" by simp
  then obtain l where "argmax (value_counts (map Survived table)) = Inr l"
    using most_common_most_frequent by blast
  then show ?thesis by (simp add: table_lookup_predictor_def)
qed

lemma table_lookup_predictor_2_Nil: "table_lookup_predictor_2 x [] age = Inl ValueError"
  by (simp add: table_lookup_predictor_2_def argmax_value_counts_Nil)

lemma table_lookup_predictor_Nil: "table_lookup_predictor x [] = Inl ValueError"
  by (simp add: table_lookup_predictor_def argmax_value_counts_Nil)

section \<open>Properties of the table-lookup predictor\<close>

text \<open>
  The first predictor of the notebook, \<^verbatim>\<open>table_lookup_predictor(x, table)\<close>, is
  the second one at a cutoff with which no age compares: the extra conjunct of the
  mask is then true of every row. Every property of \<open>table_lookup_predictor_2\<close>
  below, read at the cutoff NaN, is a property of \<open>table_lookup_predictor\<close>.
\<close>

lemma float_lt_NaN: "float_lt a NaN = False"
  by (cases a) simp_all

lemma similar_2_NaN: "similar_2 NaN x = similar x"
  by (rule ext) (simp only: similar_2_def similar_def float_lt_NaN simp_thms)

lemma table_lookup_predictor_cutoff_NaN:
  "table_lookup_predictor x table = table_lookup_predictor_2 x table NaN"
  by (simp only: table_lookup_predictor_def table_lookup_predictor_2_def similar_2_NaN)

text \<open>
  Claim C10. For every fixed age cutoff the similarity relation of the filter of
  \<open>table_lookup_predictor_2\<close> is reflexive and symmetric: every row matches the
  filter built from itself, and \<open>y\<close> matches the filter built from \<open>x\<close> exactly
  when \<open>x\<close> matches the filter built from \<open>y\<close>. The cutoff and the ages may be NaN.
\<close>

theorem similar_2_reflexive_symmetric:
  "similar_2 age x x \<and> (similar_2 age x y \<longleftrightarrow> similar_2 age y x)"
proof
  show "similar_2 age x x" by (simp add: similar_2_def)
next
  have "similar_2 age b a" if "similar_2 age a b" for a b :: "'a passenger_scheme"
    using that unfolding similar_2_def by (elim conjE, intro conjI) (rule sym, assumption)+
  then show "similar_2 age x y \<longleftrightarrow> similar_2 age y x" by blast
qed

text \<open>An instance with a missing age on one side and a finite age on the other.\<close>

theorem similar_2_reflexive_symmetric_witness:
  "similar_2 (Finite 10)
     \<lparr>Survived = 1, Pclass = 3, Sex = ''male'', Siblings_Spouses_Aboard = 0,
      Parents_Children_Aboard = 0, Age = NaN\<rparr>
     \<lparr>Survived = 1, Pclass = 3, Sex = ''male'', Siblings_Spouses_Aboard = 0,
      Parents_Children_Aboard = 0, Age = NaN\<rparr> \<and>
   (similar_2 (Finite 10)
     \<lparr>Survived = 1, Pclass = 3, Sex = ''male'', Siblings_Spouses_Aboard = 0,
      Parents_Children_Aboard = 0, Age = NaN\<rparr>
     \<lparr>Survived = 0, Pclass = 3, Sex = ''male'', Siblings_Spouses_Aboard = 0,
      Parents_Children_Aboard = 0, Age = Finite 70\<rparr> \<longleftrightarrow>
    similar_2 (Finite 10)
     \<lparr>Survived = 0, Pclass = 3, Sex = ''male'', Siblings_Spouses_Aboard = 0,
      Parents_Children_Aboard = 0, Age = Finite 70\<rparr>
     \<lparr>Survived = 1, Pclass = 3, Sex = ''male'', Siblings_Spouses_Aboard = 0,
      Parents_Children_Aboard = 0, Age = NaN\<rparr>)"
  by (rule similar_2_reflexive_symmetric)

text \<open>
  Claim C9. On a non-empty reference table the predictor returns a label that occurs
  in the \<^verbatim>\<open>Survived\<close> column of the table: it is a most frequent label of the
  matching rows or a most frequent label of the whole table.
\<close>

theorem predict_label_occurs_in_table:
  assumes "table \<noteq> []"
  shows "\<exists>l. table_lookup_predictor_2 x table age = Inr l \<and>
           l \<in> set (map Survived table) \<and>
           (most_frequent (map Survived (filter (similar_2 age x) table)) l \<or>
            most_frequent (map Survived table) l)"
proof (cases "filter (similar_2 age x) table = []")
  case True
  from assms have "map Survived table \<noteq> []" by simp
  then obtain l where "argmax (value_counts (map Survived table)) = Inr l"
    and "most_frequent (map Survived table) l"
    using most_common_most_frequent by blast
  then show ?thesis
    using True assms by (auto simp: table_lookup_predictor_2_deciding most_frequent_def)
next
  case False
  let ?s = "map Survived (filter (similar_2 age x) table)"
  from False have "?s \<noteq> []" by simp
  then obtain l where "argmax (value_counts ?s) = Inr l" and "most_frequent ?s l"
    using most_common_most_frequent by blast
  then show ?thesis
    using False assms by (auto simp: table_lookup_predictor_2_deciding most_frequent_def)
qed

text \<open>An instance: a one-row table and a query that the row does not match.\<close>

theorem predict_label_occurs_in_table_witness:
  "[\<lparr>Survived = 1, Pclass = 3, Sex = ''male'', Siblings_Spouses_Aboard = 0,
      Parents_Children_Aboard = 0, Age = Finite 22\<rparr>] \<noteq> [] \<and>
   (\<exists>l. table_lookup_predictor_2
          \<lparr>Survived = 0, Pclass = 1, Sex = ''female'', Siblings_Spouses_Aboard = 1,
           Parents_Children_Aboard = 0, Age = Finite 38\<rparr>
          [\<lparr>Survived = 1, Pclass = 3, Sex = ''male'', Siblings_Spouses_Aboard = 0,
            Parents_Children_Aboard = 0, Age = Finite 22\<rparr>] (Finite 30) = Inr l \<and> l = 1)"
  using predict_label_occurs_in_table
    [of "[\<lparr>Survived = 1, Pclass = 3, Sex = ''male'', Siblings_Spouses_Aboard = 0,
      Parents_Children_Aboard = 0, Age = Finite 22\<rparr>]"
      "\<lparr>Survived = 0, Pclass = 1, Sex = ''female'', Siblings_Spouses_Aboard = 1,
           Parents_Children_Aboard = 0, Age = Finite 38\<rparr>" "Finite 30"]
  by auto

text \<open>
  Claim C7. When no row of a non-empty reference table matches the filter of the
  query, the predictor returns the default label, the value the code computes as
  \<^verbatim>\<open>table.Survived.value_counts().argmax()\<close>, and that is a most frequent label of
  the unfiltered table. On the empty table the default cannot be computed and the
  call raises \<^verbatim>\<open>ValueError\<close>, so the caller has to pass a non-empty table.
\<close>

theorem predict_no_match_returns_default:
  "(table \<noteq> [] \<and> filter (similar_2 age x) table = [] \<longrightarrow>
      (\<exists>l. table_lookup_predictor_2 x table age = Inr l \<and>
           argmax (value_counts (map Survived table)) = Inr l \<and>
           most_frequent (map Survived table) l)) \<and>
   table_lookup_predictor_2 x [] age = Inl ValueError"
proof (intro conjI impI)
  assume a: "table \<noteq> [] \<and> filter (similar_2 age x) table = []"
  then have "map Survived table \<noteq> []" by simp
  then obtain l where "argmax (value_counts (map Survived table)) = Inr l"
    and "most_frequent (map Survived table) l"
    using most_common_most_frequent by blast
  then show "\<exists>l. table_lookup_predictor_2 x table age = Inr l \<and>
           argmax (value_counts (map Survived table)) = Inr l \<and>
           most_frequent (map Survived table) l"
    using a by (simp add: table_lookup_predictor_2_deciding)
next
  show "table_lookup_predictor_2 x [] age = Inl ValueError"
    by (rule table_lookup_predictor_2_Nil)
qed

text \<open>An instance: a one-row table and a query of another class and sex.\<close>

theorem predict_no_match_returns_default_witness:
  "[\<lparr>Survived = 1, Pclass = 3, Sex = ''male'', Siblings_Spouses_Aboard = 0,
      Parents_Children_Aboard = 0, Age = Finite 22\<rparr>] \<noteq> [] \<and>
   filter (similar_2 (Finite 30)
          \<lparr>Survived = 0, Pclass = 1, Sex = ''female'', Siblings_Spouses_Aboard = 1,
           Parents_Children_Aboard = 0, Age = Finite 38\<rparr>)
     [\<lparr>Survived = 1, Pclass = 3, Sex = ''male'', Siblings_Spouses_Aboard = 0,
      Parents_Children_Aboard = 0, Age = Finite 22\<rparr>] = [] \<and>
   table_lookup_predictor_2
          \<lparr>Survived = 0, Pclass = 1, Sex = ''female'', Siblings_Spouses_Aboard = 1,
           Parents_Children_Aboard = 0, Age = Finite 38\<rparr>
          [\<lparr>Survived = 1, Pclass = 3, Sex = ''male'', Siblings_Spouses_Aboard = 0,
            Parents_Children_Aboard = 0, Age = Finite 22\<rparr>] (Finite 30) = Inr 1"
  using predict_no_match_returns_default
    [of "[\<lparr>Survived = 1, Pclass = 3, Sex = ''male'', Siblings_Spouses_Aboard = 0,
      Parents_Children_Aboard = 0, Age = Finite 22\<rparr>]" "Finite 30"
      "\<lparr>Survived = 0, Pclass = 1, Sex = ''female'', Siblings_Spouses_Aboard = 1,
           Parents_Children_Aboard = 0, Age = Finite 38\<rparr>"]
  by (auto simp: similar_2_def most_frequent_def)

text \<open>
  Claim C2. The label returned on a non-empty table is the lowest of the most
  frequent labels among the labels that decide (those of the matching rows, or
  those of the whole table when no row matches): where several labels tie for most
  frequent, the lowest wins. In particular, when the matching rows carry the labels
  \<open>[1, 0]\<close>, the result is \<open>0\<close>.
\<close>

theorem predict_tie_lowest_label:
  assumes "table \<noteq> []"
  shows "(\<exists>l. table_lookup_predictor_2 x table age = Inr l \<and>
            (if filter (similar_2 age x) table = []
             then most_frequent (map Survived table) l \<and>
                  (\<forall>l'. most_frequent (map Survived table) l' \<longrightarrow> l \<le> l')
             else most_frequent (map Survived (filter (similar_2 age x) table)) l \<and>
                  (\<forall>l'. most_frequent (map Survived (filter (similar_2 age x) table)) l'
                        \<longrightarrow> l \<le> l'))) \<and>
         (map Survived (filter (similar_2 age x) table) = [1, 0] \<longrightarrow>
            table_lookup_predictor_2 x table age = Inr 0)"
proof -
  define s where "s = (if filter (similar_2 age x) table = [] then map Survived table
                        else map Survived (filter (similar_2 age x) table))"
  have res: "table_lookup_predictor_2 x table age = argmax (value_counts s)"
    unfolding s_def by (rule table_lookup_predictor_2_deciding [OF assms])
  have "s \<noteq> []" using assms by (simp add: s_def)
  then obtain l where l: "argmax (value_counts s) = Inr l" "most_frequent s l"
    and low: "\<forall>l'. most_frequent s l' \<longrightarrow> l \<le> l'"
    using most_common_most_frequent by blast
  have first: "\<exists>l. table_lookup_predictor_2 x table age = Inr l \<and>
            (if filter (similar_2 age x) table = []
             then most_frequent (map Survived table) l \<and>
                  (\<forall>l'. most_frequent (map Survived table) l' \<longrightarrow> l \<le> l')
             else most_frequent (map Survived (filter (similar_2 age x) table)) l \<and>
                  (\<forall>l'. most_frequent (map Survived (filter (similar_2 age x) table)) l'
                        \<longrightarrow> l \<le> l'))"
    using res l low unfolding s_def by (cases "filter (similar_2 age x) table = []") auto
  have second: "table_lookup_predictor_2 x table age = Inr 0"
    if t: "map Survived (filter (similar_2 age x) table) = [1, 0]"
  proof -
    from t have ne: "filter (similar_2 age x) table \<noteq> []" by auto
    then have s: "s = [1, 0]" using t by (simp add: s_def)
    have "most_frequent s 0" by (simp add: s most_frequent_def)
    then have "l \<le> 0" using low by blast
    moreover have "l \<in> {0, 1}" using l(2) by (auto simp: s most_frequent_def)
    ultimately have "l = 0" by auto
    with res l show ?thesis by simp
  qed
  from first second show ?thesis by blast
qed

text \<open>An instance: two matching rows with the labels 1 and 0.\<close>

theorem predict_tie_lowest_label_witness:
  "[\<lparr>Survived = 1, Pclass = 3, Sex = ''male'', Siblings_Spouses_Aboard = 0,
      Parents_Children_Aboard = 0, Age = Finite 22\<rparr>,
    \<lparr>Survived = 0, Pclass = 3, Sex = ''male'', Siblings_Spouses_Aboard = 0,
      Parents_Children_Aboard = 0, Age = Finite 27\<rparr>] \<noteq> [] \<and>
   table_lookup_predictor_2
     \<lparr>Survived = 1, Pclass = 3, Sex = ''male'', Siblings_Spouses_Aboard = 0,
      Parents_Children_Aboard = 0, Age = Finite 25\<rparr>
     [\<lparr>Survived = 1, Pclass = 3, Sex = ''male'', Siblings_Spouses_Aboard = 0,
      Parents_Children_Aboard = 0, Age = Finite 22\<rparr>,
    \<lparr>Survived = 0, Pclass = 3, Sex = ''male'', Siblings_Spouses_Aboard = 0,
      Parents_Children_Aboard = 0, Age = Finite 27\<rparr>] (Finite 30) = Inr 0"
  using predict_tie_lowest_label
    [of "[\<lparr>Survived = 1, Pclass = 3, Sex = ''male'', Siblings_Spouses_Aboard = 0,
      Parents_Children_Aboard = 0, Age = Finite 22\<rparr>,
    \<lparr>Survived = 0, Pclass = 3, Sex = ''male'', Siblings_Spouses_Aboard = 0,
      Parents_Children_Aboard = 0, Age = Finite 27\<rparr>]"
     "\<lparr>Survived = 1, Pclass = 3, Sex = ''male'', Siblings_Spouses_Aboard = 0,
      Parents_Children_Aboard = 0, Age = Finite 25\<rparr>" "Finite 30"]
  by (simp add: similar_2_def)

section \<open>Properties of the fold partitioner\<close>

lemma length_blocks: "length (blocks current sizes) = length sizes"
  by (induction sizes arbitrary: current) simp_all

lemma map_length_blocks: "map length (blocks current sizes) = sizes"
  by (induction sizes arbitrary: current) simp_all

lemma concat_blocks: "concat (blocks current sizes) = [current..<current + sum_list sizes]"
proof (induction sizes arbitrary: current)
  case Nil
  show ?case by simp
next
  case (Cons s sizes)
  have "[current..<current + s + sum_list sizes]
      = [current..<current + s] @ [current + s..<current + s + sum_list sizes]"
    by (rule upt_add_eq_append) simp
  then show ?case by (simp only: blocks.simps concat.simps Cons.IH sum_list.Cons add.assoc)
qed

lemma sum_list_sizes:
  "sum_list (map (\<lambda>i. q + (if i < r then 1 else 0)) [0..<k]) = k * q + min r k"
  by (induction k) auto

lemma sum_list_fold_sizes: "0 < k \<Longrightarrow> sum_list (fold_sizes n k) = n"
proof -
  assume k: "0 < k"
  then have "min (n mod k) k = n mod k" by simp
  then have "sum_list (fold_sizes n k) = k * (n div k) + n mod k"
    unfolding fold_sizes_def by (simp only: sum_list_sizes)
  then show ?thesis by simp
qed

lemma length_fold_sizes: "length (fold_sizes n k) = k"
  by (simp add: fold_sizes_def)

lemma fold_sizes_bounds:
  "s \<in> set (fold_sizes n k) \<Longrightarrow> n div k \<le> s \<and> s \<le> n div k + 1"
  by (auto simp: fold_sizes_def)

lemma make_folds_Inr:
  "2 \<le> k \<Longrightarrow> k \<le> int n \<Longrightarrow> make_folds n k = Inr (blocks 0 (fold_sizes n (nat k)))"
  by (simp add: make_folds_def)

lemma folds_facts:
  assumes k: "2 \<le> k" "k \<le> int n"
  defines "folds \<equiv> blocks 0 (fold_sizes n (nat k))"
  shows "length folds = nat k"
    and "concat folds = [0..<n]"
    and "\<And>g. g \<in> set folds \<Longrightarrow> n div nat k \<le> length g \<and> length g \<le> n div nat k + 1"
    and "\<And>g. g \<in> set folds \<Longrightarrow> g \<noteq> []"
    and "distinct folds"
proof -
  have pos: "0 < nat k" using k by simp
  show len: "length folds = nat k" by (simp add: folds_def length_blocks length_fold_sizes)
  show cat: "concat folds = [0..<n]"
    by (simp add: folds_def concat_blocks sum_list_fold_sizes [OF pos])
  show bounds: "n div nat k \<le> length g \<and> length g \<le> n div nat k + 1" if "g \<in> set folds" for g
  proof -
    from that have "length g \<in> set (map length folds)" by simp
    then have "length g \<in> set (fold_sizes n (nat k))" by (simp add: folds_def map_length_blocks)
    then show ?thesis by (rule fold_sizes_bounds)
  qed
  have "1 \<le> n div nat k"
  proof -
    have "nat k \<le> n" using k by simp
    then show ?thesis using pos by (simp add: Suc_le_eq div_greater_zero_iff)
  qed
  then show ne: "g \<noteq> []" if "g \<in> set folds" for g using bounds [OF that] by auto
  have "distinct (concat folds)" by (simp add: cat)
  then have "distinct (removeAll [] folds)" by (simp add: distinct_concat_iff)
  moreover have "[] \<notin> set folds" using ne by blast
  ultimately show "distinct folds" by simp
qed

text \<open>
  Claim C3. For every record count \<open>n\<close> and every fold count \<open>k\<close> with
  \<open>2 \<le> k \<le> n\<close>, \<open>make_folds n k\<close> returns exactly \<open>k\<close> index groups; two groups
  at different positions are disjoint; the union of the groups is \<open>0..n-1\<close> and no
  index occurs twice (the groups, one after the other, are the list \<open>0..n-1\<close>); the
  sizes of two groups differ by at most one.
\<close>

theorem make_folds_partition:
  assumes "2 \<le> k" and "k \<le> int n"
  shows "\<exists>folds. make_folds n k = Inr folds \<and> length folds = nat k \<and>
           (\<forall>i < length folds. \<forall>j < length folds.
              i \<noteq> j \<longrightarrow> set (folds ! i) \<inter> set (folds ! j) = {}) \<and>
           \<Union> (set ` set folds) = {0..<n} \<and> distinct (concat folds) \<and>
           concat folds = [0..<n] \<and>
           (\<forall>g \<in> set folds. \<forall>h \<in> set folds. length g \<le> length h + 1)"
proof -
  define folds where "folds = blocks 0 (fold_sizes n (nat k))"
  note f = folds_facts [OF assms, folded folds_def]
  have r: "make_folds n k = Inr folds" using assms by (simp add: make_folds_Inr folds_def)
  have dc: "distinct (concat folds)" by (simp add: f(2))
  have disj: "set (folds ! i) \<inter> set (folds ! j) = {}"
    if "i < length folds" "j < length folds" "i \<noteq> j" for i j
  proof -
    from that f(5) have "folds ! i \<noteq> folds ! j" by (simp add: nth_eq_iff_index_eq)
    moreover have "folds ! i \<in> set folds" "folds ! j \<in> set folds" using that by simp_all
    ultimately show ?thesis using dc unfolding distinct_concat_iff by blast
  qed
  have un: "\<Union> (set ` set folds) = {0..<n}"
  proof -
    have "\<Union> (set ` set folds) = set (concat folds)" by simp
    then show ?thesis by (simp only: f(2) set_upt)
  qed
  have sz: "length g \<le> length h + 1" if "g \<in> set folds" "h \<in> set folds" for g h
    using f(3) [OF that(1)] f(3) [OF that(2)] by linarith
  show ?thesis using r f(1) disj un dc f(2) sz by blast
qed

text \<open>An instance: five records in two folds.\<close>

theorem make_folds_partition_witness:
  "(2::int) \<le> 2 \<and> (2::int) \<le> int 5 \<and> make_folds 5 2 = Inr [[0, 1, 2], [3, 4]]"
proof -
  have "make_folds 5 2 = Inr [[0, 1, 2], [3, 4]]" by code_simp
  with make_folds_partition [of 2 5] show ?thesis by simp
qed

text \<open>
  Claim C6. For every record count and every fold count \<open>k\<close> with \<open>k < 2\<close> or
  \<open>k > n_records\<close>, \<open>make_folds\<close> fails; the failure is the \<^verbatim>\<open>ValueError\<close> that
  the spec names \<^verbatim>\<open>InvalidArgument\<close>.
\<close>

theorem make_folds_invalid_argument:
  "k < 2 \<or> int n_records < k \<Longrightarrow> make_folds n_records k = Inl ValueError"
  by (auto simp: make_folds_def)

text \<open>An instance: five folds of three records.\<close>

theorem make_folds_invalid_argument_witness:
  "((5::int) < 2 \<or> int 3 < 5) \<and> make_folds 3 5 = Inl ValueError"
proof -
  have h: "(5::int) < 2 \<or> int 3 < 5" by simp
  from make_folds_invalid_argument [OF h] h show ?thesis by blast
qed

section \<open>Properties of the cross-validation loop\<close>

lemma table_lookup_predictor_2_Inr:
  assumes "table \<noteq> []"
  shows "\<exists>l. table_lookup_predictor_2 x table age = Inr l"
proof -
  have "(if filter (similar_2 age x) table = [] then map Survived table
         else map Survived (filter (similar_2 age x) table)) \<noteq> []"
    using assms by simp
  then show ?thesis
    unfolding table_lookup_predictor_2_deciding [OF assms]
    using most_common_most_frequent by blast
qed

lemma iloc_Inr: "\<forall>i \<in> set idx. i < length df \<Longrightarrow> iloc df idx = Inr (map (nth df) idx)"
  by (simp add: iloc_def list_all_iff)

lemma apply_rows_Inr:
  "\<forall>x \<in> set xs. \<exists>y. f x = Inr y \<Longrightarrow> apply_rows f xs = Inr (map (\<lambda>x. projr (f x)) xs)"
  by (induction xs) auto

lemma count_zip_map:
  "length (filter (\<lambda>(t, p). t = p) (zip (map a idx) (map b idx)))
     = length (filter (\<lambda>i. a i = b i) idx)"
  by (induction idx) simp_all

lemma fold_score_Inr:
  assumes test: "test \<noteq> []" "\<forall>i \<in> set test. i < length dataset"
    and train: "filter (\<lambda>i. i \<notin> set test) [0..<length dataset] \<noteq> []"
  shows "fold_score dataset h (filter (\<lambda>i. i \<notin> set test) [0..<length dataset], test)
           = Inr (score dataset h (filter (\<lambda>i. i \<notin> set test) [0..<length dataset], test))"
proof -
  let ?train = "filter (\<lambda>i. i \<notin> set test) [0..<length dataset]"
  let ?tab = "training_of dataset test"
  let ?f = "\<lambda>x. table_lookup_predictor_2 x ?tab (Finite h)"
  have held: "iloc dataset test = Inr (map (nth dataset) test)"
    using test(2) by (rule iloc_Inr)
  have tab: "iloc dataset ?train = Inr ?tab"
    unfolding training_of_def by (rule iloc_Inr) simp
  have ne: "?tab \<noteq> []" using train by (simp add: training_of_def)
  have ok: "\<exists>y. ?f x = Inr y" for x
    using table_lookup_predictor_2_Inr [OF ne] by blast
  then have pred: "apply_rows ?f (map (nth dataset) test)
      = Inr (map (\<lambda>x. projr (?f x)) (map (nth dataset) test))"
    by (intro apply_rows_Inr) blast
  have actual: "iloc (map Survived dataset) test = Inr (map (\<lambda>i. Survived (dataset ! i)) test)"
  proof -
    have "iloc (map Survived dataset) test = Inr (map (nth (map Survived dataset)) test)"
      using test(2) by (intro iloc_Inr) simp
    moreover have "map (nth (map Survived dataset)) test = map (\<lambda>i. Survived (dataset ! i)) test"
      using test(2) by simp
    ultimately show ?thesis by simp
  qed
  have eq: "(Survived (dataset ! i) = projr (?f (dataset ! i)))
      \<longleftrightarrow> (?f (dataset ! i) = Inr (Survived (dataset ! i)))" for i
    using ok [of "dataset ! i"] by auto
  have cnt: "length (filter (\<lambda>(t, p). t = p)
        (zip (map (\<lambda>i. Survived (dataset ! i)) test) (map (\<lambda>i. projr (?f (dataset ! i))) test)))
      = correct_count dataset h test"
    unfolding correct_count_def count_zip_map by (simp only: eq)
  have acc: "accuracy_score (map (\<lambda>i. Survived (dataset ! i)) test)
        (map (\<lambda>i. projr (?f (dataset ! i))) test)
      = Inr (of_nat (correct_count dataset h test) / of_nat (length test))"
    unfolding accuracy_score_def using test(1) by (simp only: cnt) simp
  show ?thesis
    unfolding fold_score_def score_def
    by (simp only: prod.case held tab pred actual sum.case map_map comp_def acc snd_conv)
qed

lemma cv_loop_Inr:
  "\<forall>tt \<in> set splits. fold_score dataset h tt = Inr (sc tt)
     \<Longrightarrow> cv_loop dataset h splits cv_perf = Inr (cv_perf @ map sc splits)"
  by (induction splits arbitrary: cv_perf) simp_all

lemma performance_loop_Inr:
  assumes "kf_split k dataset = Inr splits"
    and "\<forall>h \<in> set ages. \<forall>tt \<in> set splits. fold_score dataset h tt = Inr (sc h tt)"
  shows "performance_loop dataset k ages performance
           = Inr (\<lambda>h. if h \<in> set ages then Some (map (sc h) splits) else performance h)"
  using assms(2)
proof (induction ages arbitrary: performance)
  case Nil
  show ?case by simp
next
  case (Cons age ages)
  have "cv_loop dataset age splits [] = Inr ([] @ map (sc age) splits)"
    by (rule cv_loop_Inr) (use Cons.prems in simp)
  moreover have "performance_loop dataset k ages (performance(age \<mapsto> map (sc age) splits))
      = Inr (\<lambda>h. if h \<in> set ages then Some (map (sc h) splits)
                  else (performance(age \<mapsto> map (sc age) splits)) h)"
    by (rule Cons.IH) (use Cons.prems in simp)
  moreover have "(\<lambda>h. if h \<in> set ages then Some (map (sc h) splits)
                  else (performance(age \<mapsto> map (sc age) splits)) h)
      = (\<lambda>h. if h \<in> set (age # ages) then Some (map (sc h) splits) else performance h)"
    by (rule ext) simp
  ultimately show ?case using assms(1) by simp
qed


lemma KFold_Inr: "2 \<le> k \<Longrightarrow> KFold k = Inr k"
  by (simp add: KFold_def)

lemma KFold_Inl: "k < 2 \<Longrightarrow> KFold k = Inl ValueError"
  by (simp add: KFold_def)

lemma kf_split_Inr:
  assumes "2 \<le> k" and "k \<le> int (length X)"
  shows "kf_split k X = Inr (map (\<lambda>test. (filter (\<lambda>i. i \<notin> set test) [0..<length X], test))
                                (blocks 0 (fold_sizes (length X) (nat k))))"
  using assms by (simp add: kf_split_def make_folds_Inr)

lemma kf_split_Inl:
  "k < 2 \<or> int (length X) < k \<Longrightarrow> kf_split k X = Inl ValueError"
  by (auto simp: kf_split_def make_folds_def)

lemma fold_usable:
  assumes k: "2 \<le> k" "k \<le> int n"
    and test: "test \<in> set (blocks 0 (fold_sizes n (nat k)))"
  shows "test \<noteq> []" and "\<forall>i \<in> set test. i < n"
    and "filter (\<lambda>i. i \<notin> set test) [0..<n] \<noteq> []"
proof -
  define folds where "folds = blocks 0 (fold_sizes n (nat k))"
  note f = folds_facts [OF k, folded folds_def]
  have t: "test \<in> set folds" using test by (simp add: folds_def)
  show "test \<noteq> []" using f(4) t by blast
  have sub: "set g \<subseteq> {0..<n}" if "g \<in> set folds" for g
  proof -
    have "set g \<subseteq> set (concat folds)" using that by auto
    then show ?thesis by (simp only: f(2) set_upt)
  qed
  show "\<forall>i \<in> set test. i < n" using sub [OF t] by auto
  from t obtain i where i: "i < length folds" "folds ! i = test"
    by (auto simp: in_set_conv_nth)
  define j where "j = (if i = 0 then 1 else 0 :: nat)"
  have j: "j < length folds" "j \<noteq> i" using k f(1) by (auto simp: j_def)
  define other where "other = folds ! j"
  have o: "other \<in> set folds" using j by (simp add: other_def)
  have "folds ! j \<noteq> folds ! i" using i(1) j f(5) by (simp add: nth_eq_iff_index_eq)
  then have "other \<noteq> test" by (simp add: other_def i(2))
  moreover have "distinct (concat folds)" by (simp add: f(2))
  ultimately have disj: "set other \<inter> set test = {}"
    using o t unfolding distinct_concat_iff by blast
  from f(4) [OF o] obtain x where x: "x \<in> set other" by (cases other) auto
  then have "x \<notin> set test" using disj by blast
  moreover have "x \<in> set [0..<n]" using sub [OF o] x by auto
  ultimately have "x \<in> set (filter (\<lambda>i. i \<notin> set test) [0..<n])" by simp
  then have "0 < length (filter (\<lambda>i. i \<notin> set test) [0..<n])"
    by (rule length_pos_if_in_set)
  then show "filter (\<lambda>i. i \<notin> set test) [0..<n] \<noteq> []"
    by simp
qed

lemma splits_scores:
  assumes k: "2 \<le> k" "k \<le> int (length dataset)"
    and s: "kf_split k dataset = Inr splits"
    and tt: "tt \<in> set splits"
  shows "fold_score dataset h tt = Inr (score dataset h tt)"
proof -
  from tt s obtain test where test: "test \<in> set (blocks 0 (fold_sizes (length dataset) (nat k)))"
    and eq: "tt = (filter (\<lambda>i. i \<notin> set test) [0..<length dataset], test)"
    unfolding kf_split_Inr [OF k] by auto
  note u = fold_usable [OF k test]
  show ?thesis unfolding eq by (rule fold_score_Inr [OF u])
qed

lemma evaluate_Inr:
  assumes k: "2 \<le> k" "k \<le> int (length dataset)"
    and s: "kf_split k dataset = Inr splits"
  shows "evaluate dataset candidates k
           = Inr (\<lambda>h. if h \<in> set candidates then Some (map (score dataset h) splits) else None)"
proof -
  have "performance_loop dataset k candidates Map.empty
      = Inr (\<lambda>h. if h \<in> set candidates then Some (map (score dataset h) splits) else None)"
    by (rule performance_loop_Inr [OF s]) (simp add: splits_scores [OF k s])
  then show ?thesis by (simp add: evaluate_def KFold_Inr [OF k(1)])
qed

lemma score_bounds:
  assumes "snd tt \<noteq> []"
  shows "0 \<le> score dataset h tt" and "score dataset h tt \<le> 1"
proof -
  have "correct_count dataset h (snd tt) \<le> length (snd tt)"
    by (simp add: correct_count_def)
  then have "(of_nat (correct_count dataset h (snd tt)) :: rat) \<le> of_nat (length (snd tt))"
    by (simp only: of_nat_le_iff)
  moreover have "(0::rat) < of_nat (length (snd tt))" using assms by simp
  ultimately show "score dataset h tt \<le> 1" by (simp add: score_def)
  show "0 \<le> score dataset h tt" by (simp add: score_def)
qed

text \<open>
  Claim C1. For every dataset, every candidate list and every fold count \<open>k\<close> with
  \<open>2 \<le> k \<le> |dataset|\<close>, \<open>evaluate\<close> succeeds and returns a mapping whose keys are
  the candidates; each candidate is mapped to a sequence of exactly \<open>k\<close> scores; the
  score at position \<open>f\<close> is the number of records of fold \<open>f\<close> whose label the
  table-lookup predictor, given all records outside the fold as reference table and
  the candidate as cutoff, predicts correctly, divided by the number of records of
  the fold, which is not zero; every score lies between 0 and 1. The whole
  candidate-by-fold matrix is returned.
\<close>

theorem evaluate_score_matrix:
  assumes "2 \<le> k" and "k \<le> int (length dataset)"
  shows "\<exists>performance folds.
           evaluate dataset candidates k = Inr performance \<and>
           make_folds (length dataset) k = Inr folds \<and>
           dom performance = set candidates \<and>
           (\<forall>h \<in> set candidates. \<exists>scores.
              performance h = Some scores \<and> length scores = nat k \<and>
              (\<forall>f < nat k.
                 folds ! f \<noteq> [] \<and>
                 scores ! f = of_nat (correct_count dataset h (folds ! f))
                              / of_nat (length (folds ! f)) \<and>
                 0 \<le> scores ! f \<and> scores ! f \<le> 1))"
proof -
  define folds where "folds = blocks 0 (fold_sizes (length dataset) (nat k))"
  define splits where
    "splits = map (\<lambda>test. (filter (\<lambda>i. i \<notin> set test) [0..<length dataset], test)) folds"
  define performance where
    "performance = (\<lambda>h. if h \<in> set candidates then Some (map (score dataset h) splits) else None)"
  have s: "kf_split k dataset = Inr splits"
    unfolding splits_def folds_def by (rule kf_split_Inr [OF assms])
  have ev: "evaluate dataset candidates k = Inr performance"
    unfolding performance_def by (rule evaluate_Inr [OF assms s])
  have mf: "make_folds (length dataset) k = Inr folds"
    unfolding folds_def by (rule make_folds_Inr [OF assms])
  have len: "length folds = nat k"
    unfolding folds_def by (rule folds_facts(1) [OF assms])
  have dom: "dom performance = set candidates"
    by (auto simp: performance_def dom_def)
  have sc: "folds ! f \<noteq> [] \<and>
      map (score dataset h) splits ! f
        = of_nat (correct_count dataset h (folds ! f)) / of_nat (length (folds ! f)) \<and>
      0 \<le> map (score dataset h) splits ! f \<and> map (score dataset h) splits ! f \<le> 1"
    if "f < nat k" for f h
  proof -
    have fl: "f < length folds" using that len by simp
    then have mem: "folds ! f \<in> set (blocks 0 (fold_sizes (length dataset) (nat k)))"
      unfolding folds_def by simp
    have ne: "folds ! f \<noteq> []" by (rule fold_usable(1) [OF assms mem])
    have nth: "map (score dataset h) splits ! f = score dataset h (splits ! f)"
      using fl by (simp add: splits_def)
    have snd: "snd (splits ! f) = folds ! f" using fl by (simp add: splits_def)
    have "score dataset h (splits ! f)
        = of_nat (correct_count dataset h (folds ! f)) / of_nat (length (folds ! f))"
      by (simp add: score_def snd)
    moreover have "0 \<le> score dataset h (splits ! f)" "score dataset h (splits ! f) \<le> 1"
      using ne by (simp_all add: score_bounds snd)
    ultimately show ?thesis using ne nth by simp
  qed
  have rows: "\<forall>h \<in> set candidates. \<exists>scores.
      performance h = Some scores \<and> length scores = nat k \<and>
      (\<forall>f < nat k.
         folds ! f \<noteq> [] \<and>
         scores ! f = of_nat (correct_count dataset h (folds ! f))
                      / of_nat (length (folds ! f)) \<and>
         0 \<le> scores ! f \<and> scores ! f \<le> 1)"
  proof
    fix h assume h: "h \<in> set candidates"
    have "performance h = Some (map (score dataset h) splits)"
      using h by (simp add: performance_def)
    moreover have "length (map (score dataset h) splits) = nat k"
      by (simp add: splits_def len)
    ultimately show "\<exists>scores.
      performance h = Some scores \<and> length scores = nat k \<and>
      (\<forall>f < nat k.
         folds ! f \<noteq> [] \<and>
         scores ! f = of_nat (correct_count dataset h (folds ! f))
                      / of_nat (length (folds ! f)) \<and>
         0 \<le> scores ! f \<and> scores ! f \<le> 1)"
      using sc by blast
  qed
  show ?thesis using ev mf dom rows by blast
qed

text \<open>An instance: the four example passengers, the cutoffs 10 and 30, two folds.\<close>

theorem evaluate_score_matrix_witness:
  "(2::int) \<le> 2 \<and> 2 \<le> int (length example_dataset) \<and>
   (\<exists>performance. evaluate example_dataset [10, 30] 2 = Inr performance \<and>
      dom performance = {10, 30} \<and>
      performance 10 = Some [1 / 2, 1 / 2] \<and> performance 30 = Some [1, 1])"
proof -
  have k: "(2::int) \<le> 2" "2 \<le> int (length example_dataset)"
    by (simp_all add: example_dataset_def)
  from evaluate_score_matrix [OF k, of "[10, 30]"] obtain performance where
    p: "evaluate example_dataset [10, 30] 2 = Inr performance" and
    d: "dom performance = set [10, 30]"
    by blast
  have "scores_of (evaluate example_dataset [10, 30] 2) 10 = Some [1 / 2, 1 / 2]"
    by code_simp
  then have a: "performance 10 = Some [1 / 2, 1 / 2]" by (simp add: p scores_of_def)
  have "scores_of (evaluate example_dataset [10, 30] 2) 30 = Some [1, 1]"
    by code_simp
  then have b: "performance 30 = Some [1, 1]" by (simp add: p scores_of_def)
  have "dom performance = {10, 30}" using d by simp
  with k p a b show ?thesis by blast
qed

text \<open>
  Claim C5, as amended. For every dataset with fewer than \<open>k\<close> records and every
  non-empty candidate list, \<open>evaluate\<close> fails with the \<^verbatim>\<open>ValueError\<close> that the
  first call of \<^verbatim>\<open>kf.split\<close> raises (the spec's \<^verbatim>\<open>InsufficientData\<close>) and returns
  no mapping; for \<open>k < 2\<close> the same exception is raised already when the splitter
  is built. With an empty candidate list and \<open>k \<ge> 2\<close> the body of the outer loop
  never runs, \<^verbatim>\<open>kf.split\<close> is never called and the empty mapping is returned.
\<close>

theorem evaluate_insufficient_data:
  assumes "int (length dataset) < k"
  shows "(candidates \<noteq> [] \<longrightarrow> evaluate dataset candidates k = Inl ValueError) \<and>
         (candidates = [] \<and> 2 \<le> k \<longrightarrow> evaluate dataset candidates k = Inr Map.empty)"
proof -
  have "kf_split k dataset = Inl ValueError" using assms by (simp add: kf_split_Inl)
  then show ?thesis by (cases candidates) (simp_all add: evaluate_def KFold_def)
qed

text \<open>An instance: four records, five folds, one candidate.\<close>

theorem evaluate_insufficient_data_witness:
  "int (length example_dataset) < 5 \<and> [10 :: rat] \<noteq> [] \<and>
   evaluate example_dataset [10] 5 = Inl ValueError"
proof -
  have h: "int (length example_dataset) < 5" by (simp add: example_dataset_def)
  from evaluate_insufficient_data [OF h, of "[10]"] h show ?thesis by simp
qed

text \<open>
  Claim C5 as stated fails: with four records, five folds and no candidate the call
  does not fail.
\<close>

theorem evaluate_insufficient_data_counterexample:
  "int (length example_dataset) < 5 \<and> \<not> isl (evaluate example_dataset [] 5)"
  by (simp add: example_dataset_def evaluate_def KFold_def)

section \<open>The order of the pairs\<close>

lemma process_pairs_Inr:
  assumes "\<forall>p \<in> set pairs. snd p < length splits"
    and "\<forall>tt \<in> set splits. \<forall>h. fold_score dataset h tt = Inr (sc h tt)"
  shows "process_pairs dataset splits pairs slots
           = Inr (\<lambda>p. if p \<in> set pairs then Some (sc (fst p) (splits ! snd p)) else slots p)"
  using assms(1)
proof (induction pairs arbitrary: slots)
  case Nil
  show ?case by simp
next
  case (Cons p pairs)
  obtain h f where p: "p = (h, f)" by (cases p)
  have f: "f < length splits" using Cons.prems p by simp
  then have "splits ! f \<in> set splits" by simp
  then have fs: "fold_score dataset h (splits ! f) = Inr (sc h (splits ! f))"
    using assms(2) by blast
  have step: "process_pairs dataset splits (p # pairs) slots
      = process_pairs dataset splits pairs (slots((h, f) \<mapsto> sc h (splits ! f)))"
    by (simp add: p f fs)
  have ih: "process_pairs dataset splits pairs (slots((h, f) \<mapsto> sc h (splits ! f)))
      = Inr (\<lambda>q. if q \<in> set pairs then Some (sc (fst q) (splits ! snd q))
                  else (slots((h, f) \<mapsto> sc h (splits ! f))) q)"
    by (rule Cons.IH) (use Cons.prems in simp)
  have "(\<lambda>q. if q \<in> set pairs then Some (sc (fst q) (splits ! snd q))
                  else (slots((h, f) \<mapsto> sc h (splits ! f))) q)
      = (\<lambda>q. if q \<in> set (p # pairs) then Some (sc (fst q) (splits ! snd q)) else slots q)"
    by (rule ext) (simp add: p)
  with step ih show ?case by simp
qed

lemma those_map_Some: "those (map (\<lambda>x. Some (g x)) xs) = Some (map g xs)"
  by (induction xs) simp_all

lemma collect_full:
  assumes "set pairs = set candidates \<times> {0..<length splits}"
  shows "collect candidates (length splits)
           (\<lambda>p. if p \<in> set pairs then Some (sc (fst p) (splits ! snd p)) else None)
         = (\<lambda>h. if h \<in> set candidates then Some (map (sc h) splits) else None)"
proof (rule ext)
  fix h
  show "collect candidates (length splits)
           (\<lambda>p. if p \<in> set pairs then Some (sc (fst p) (splits ! snd p)) else None) h
         = (if h \<in> set candidates then Some (map (sc h) splits) else None)"
  proof (cases "h \<in> set candidates")
    case False
    then show ?thesis by (simp add: collect_def)
  next
    case True
    have a: "collect candidates (length splits)
           (\<lambda>p. if p \<in> set pairs then Some (sc (fst p) (splits ! snd p)) else None) h
        = those (map (\<lambda>f. if (h, f) \<in> set pairs then Some (sc h (splits ! f)) else None)
                   [0..<length splits])"
      using True by (simp add: collect_def cong: if_cong)
    have b: "map (\<lambda>f. if (h, f) \<in> set pairs then Some (sc h (splits ! f)) else None)
              [0..<length splits]
        = map (\<lambda>f. Some (sc h (splits ! f))) [0..<length splits]"
      using True assms by (intro map_cong) simp_all
    have c: "map (\<lambda>f. sc h (splits ! f)) [0..<length splits] = map (sc h) splits"
    proof -
      have "map (sc h) (map (nth splits) [0..<length splits]) = map (sc h) splits"
        by (simp only: map_nth)
      then show ?thesis by (simp only: map_map comp_def)
    qed
    have "collect candidates (length splits)
           (\<lambda>p. if p \<in> set pairs then Some (sc (fst p) (splits ! snd p)) else None) h
        = Some (map (sc h) splits)"
      by (simp only: a b those_map_Some c)
    then show ?thesis using True by simp
  qed
qed

lemma evaluate_in_order_Inr:
  assumes k: "2 \<le> k" "k \<le> int (length dataset)"
    and s: "kf_split k dataset = Inr splits"
    and pairs: "set pairs = set candidates \<times> {0..<nat k}"
  shows "evaluate_in_order dataset candidates k pairs
           = Inr (\<lambda>h. if h \<in> set candidates then Some (map (score dataset h) splits) else None)"
proof -
  have len: "length splits = nat k"
    using s unfolding kf_split_Inr [OF k] by (auto simp: folds_facts(1) [OF k])
  have p: "process_pairs dataset splits pairs Map.empty
      = Inr (\<lambda>p. if p \<in> set pairs then Some (score dataset (fst p) (splits ! snd p))
                  else Map.empty p)"
  proof (rule process_pairs_Inr)
    show "\<forall>p \<in> set pairs. snd p < length splits" using pairs len by auto
    show "\<forall>tt \<in> set splits. \<forall>h. fold_score dataset h tt = Inr (score dataset h tt)"
      by (simp add: splits_scores [OF k s])
  qed
  have c: "collect candidates (nat k)
        (\<lambda>p. if p \<in> set pairs then Some (score dataset (fst p) (splits ! snd p)) else None)
      = (\<lambda>h. if h \<in> set candidates then Some (map (score dataset h) splits) else None)"
    using collect_full [of pairs candidates splits "score dataset"] pairs len by simp
  show ?thesis
    by (simp only: evaluate_in_order_def KFold_Inr [OF k(1)] s p c sum.case)
qed

lemma set_fold_outer_order:
  "set (fold_outer_order candidates k) = set candidates \<times> {0..<nat k}"
  by (auto simp: fold_outer_order_def)

text \<open>
  Claim C4, as amended. For every dataset, every candidate list and every fold
  count, processing the (candidate, fold) pairs in any order, each pair at least
  once, gives the result of the code, the same mapping or the same failure; in
  particular the order of section 4.3 (folds outside, candidates inside) gives the
  result of the code's order (candidates outside, folds inside). The one exception
  is an empty candidate list with a fold count that is at least 2 and larger than
  the dataset.
\<close>

theorem evaluate_order_independent:
  assumes "candidates \<noteq> [] \<or> k \<le> int (length dataset) \<or> k < 2"
  shows "(\<forall>pairs. set pairs = set candidates \<times> {0..<nat k} \<longrightarrow>
            evaluate_in_order dataset candidates k pairs = evaluate dataset candidates k) \<and>
         evaluate_fold_outer dataset candidates k = evaluate dataset candidates k"
proof -
  have any: "evaluate_in_order dataset candidates k pairs = evaluate dataset candidates k"
    if pairs: "set pairs = set candidates \<times> {0..<nat k}" for pairs
  proof (cases "k < 2")
    case True
    then show ?thesis by (simp add: evaluate_in_order_def evaluate_def KFold_Inl)
  next
    case two: False
    show ?thesis
    proof (cases "k \<le> int (length dataset)")
      case True
      with two have k: "2 \<le> k" "k \<le> int (length dataset)" by simp_all
      from kf_split_Inr [OF k] obtain splits where s: "kf_split k dataset = Inr splits" by blast
      show ?thesis
        by (simp only: evaluate_in_order_Inr [OF k s pairs] evaluate_Inr [OF k s])
    next
      case False
      with assms two obtain h hs where c: "candidates = h # hs" by (cases candidates) auto
      have s: "kf_split k dataset = Inl ValueError" using False by (simp add: kf_split_Inl)
      show ?thesis using two by (simp add: evaluate_in_order_def evaluate_def KFold_def c s)
    qed
  qed
  have "evaluate_fold_outer dataset candidates k = evaluate dataset candidates k"
    unfolding evaluate_fold_outer_def by (rule any) (rule set_fold_outer_order)
  with any show ?thesis by blast
qed

text \<open>
  An instance: the four example passengers and two folds. The pairs of the cutoffs
  10 and 30 in a scrambled order with one pair twice, the order of section 4.3 for
  these cutoffs, and the order of section 4.3 for a list that holds the cutoff 10
  twice all give the result of the code.
\<close>

theorem evaluate_order_independent_witness:
  "[10, 30 :: rat] \<noteq> [] \<and> [10, 10 :: rat] \<noteq> [] \<and>
   set [(30 :: rat, 1 :: nat), (10, 0), (10, 1), (30, 0), (10, 0)] = set [10, 30] \<times> {0..<nat 2} \<and>
   evaluate_in_order example_dataset [10, 30] 2 [(30, 1), (10, 0), (10, 1), (30, 0), (10, 0)]
     = evaluate example_dataset [10, 30] 2 \<and>
   evaluate_fold_outer example_dataset [10, 30] 2 = evaluate example_dataset [10, 30] 2 \<and>
   evaluate_fold_outer example_dataset [10, 10] 2 = evaluate example_dataset [10, 10] 2 \<and>
   scores_of (evaluate_fold_outer example_dataset [10, 10] 2) 10 = Some [1 / 2, 1 / 2]"
proof -
  have h: "[10, 30 :: rat] \<noteq> [] \<or> (2::int) \<le> int (length example_dataset) \<or> (2::int) < 2"
    by simp
  have h': "[10, 10 :: rat] \<noteq> [] \<or> (2::int) \<le> int (length example_dataset) \<or> (2::int) < 2"
    by simp
  have two: "{0..<nat 2} = {0, 1 :: nat}" by auto
  have p: "set [(30 :: rat, 1 :: nat), (10, 0), (10, 1), (30, 0), (10, 0)]
      = set [10, 30] \<times> {0..<nat 2}"
    unfolding two by auto
  have s: "scores_of (evaluate_fold_outer example_dataset [10, 10] 2) 10 = Some [1 / 2, 1 / 2]"
    by code_simp
  from evaluate_order_independent [OF h] evaluate_order_independent [OF h'] p s
  show ?thesis by blast
qed

text \<open>
  Claim C4 as stated fails where the candidate list is empty and the dataset has
  fewer records than folds: the order of section 4.3 makes the folds first and
  fails, while the code asks for the folds inside the loop over the candidates,
  which has nothing to run, and returns the empty mapping.
\<close>

theorem evaluate_order_counterexample:
  "evaluate_fold_outer example_dataset [] 5 \<noteq> evaluate example_dataset [] 5"
  by (simp add: evaluate_fold_outer_def evaluate_in_order_def evaluate_def KFold_def
      kf_split_def make_folds_def example_dataset_def)

end
